theory Spec2Isabelle
  imports Main
begin

section \<open>The event loop's objects\<close>

text \<open>
  The embedding follows \<^verbatim>\<open>src/duckdb/asyncio/core.py\<close> and \<^verbatim>\<open>utils.py\<close>.

  The database handles (the DuckDB connection and its cursors) are opaque: their joint state is
  a value of a type variable \<open>'w\<close>.  A callable handed to \<^verbatim>\<open>Agent.submit\<close>, with its
  arguments already bound, is a function that takes the handles' state and either raises
  (\<open>Inl\<close>) or returns (\<open>Inr\<close>), leaving a new state of the handles.  The type \<open>'e\<close> stands for
  every \<^verbatim>\<open>BaseException\<close> a callable can raise, \<open>'v\<close> for the values it can return.
\<close>

type_synonym ('w, 'e, 'v) callable = "'w \<Rightarrow> ('e + 'v) \<times> 'w"

text \<open>An \<^verbatim>\<open>asyncio.Future\<close>: pending, or done with a result, or done with an exception.\<close>

datatype ('e, 'v) future = Pending | Result 'v | Exception 'e

fun is_done :: "('e, 'v) future \<Rightarrow> bool" where
  "is_done Pending = False"
| "is_done (Result v) = True"
| "is_done (Exception e) = True"

text \<open>
  What a coroutine of the module can raise into its caller: an exception of a callable, read
  back from a future; \<^verbatim>\<open>InvalidStateError\<close>, of a future that is set twice or read too
  early; \<^verbatim>\<open>TypeError\<close>, of \<^verbatim>\<open>await None\<close>.
\<close>

datatype 'e exn = Raised 'e | InvalidStateError | TypeError

text \<open>
  A task created by \<^verbatim>\<open>asyncio.create_task(self.run())\<close>, seen at its suspension points:
  \<^item> \<open>AtTop\<close>: created and not yet run, or suspended in \<^verbatim>\<open>asyncio.sleep(0)\<close>; it
    continues at the top of \<^verbatim>\<open>while True\<close>;
  \<^item> \<open>InThread fut func\<close>: suspended in \<^verbatim>\<open>asyncio.to_thread\<close>, having dequeued
    \<open>(fut, func)\<close>;
  \<^item> \<open>Finished\<close>: left the loop through \<^verbatim>\<open>break\<close>;
  \<^item> \<open>Failed\<close>: an exception left \<^verbatim>\<open>run\<close> (the task holds \<^verbatim>\<open>InvalidStateError\<close>).
\<close>

datatype ('w, 'e, 'v) task =
    AtTop
  | InThread nat "('w, 'e, 'v) callable"
  | Finished
  | Failed

fun alive :: "('w, 'e, 'v) task \<Rightarrow> bool" where
  "alive AtTop = True"
| "alive (InThread fut func) = True"
| "alive Finished = False"
| "alive Failed = False"

fun in_thread :: "('w, 'e, 'v) task \<Rightarrow> nat list" where
  "in_thread (InThread fut func) = [fut]"
| "in_thread t = []"

text \<open>
  One agent and the objects of the event loop it refers to.  \<open>running\<close>, \<open>queue\<close> and
  \<open>worker\<close> are the fields of \<^verbatim>\<open>Agent\<close>.  Futures and tasks are objects with an identity:
  \<open>futures\<close> and \<open>tasks\<close> are stores indexed by that identity, \<open>nfut\<close> and \<open>ntasks\<close> count
  the objects created so far (the next identity), and \<open>worker\<close> holds the identity of the task
  that \<^verbatim>\<open>start\<close> created last.  \<open>world\<close> is the state of the database handles.  An
  \<^verbatim>\<open>AsyncConnection\<close> owns the agent and every \<^verbatim>\<open>AsyncCursor\<close> derived from it refers
  to the same one, so one state serves the session and its cursors.
\<close>

record ('w, 'e, 'v) state =
  running :: bool
  queue :: "(nat \<times> ('w, 'e, 'v) callable) list"
  worker :: "nat option"
  tasks :: "nat \<Rightarrow> ('w, 'e, 'v) task"
  ntasks :: nat
  futures :: "nat \<Rightarrow> ('e, 'v) future"
  nfut :: nat
  world :: 'w

section \<open>Agent\<close>

text \<open>\<^verbatim>\<open>Agent.__init__\<close>: no worker, not running, an empty queue.\<close>

definition Agent_init :: "'w \<Rightarrow> ('w, 'e, 'v) state" where
  "Agent_init w =
     \<lparr> running = False, queue = [], worker = None,
       tasks = (\<lambda>i. Finished), ntasks = 0,
       futures = (\<lambda>i. Pending), nfut = 0,
       world = w \<rparr>"

text \<open>
  \<^verbatim>\<open>Agent.submit\<close>: a fresh pending future, the entry appended to the queue, the future
  returned.  The queue is unbounded, so \<^verbatim>\<open>await self.queue.put\<close> does not suspend.
\<close>

definition submit ::
  "('w, 'e, 'v) callable \<Rightarrow> ('w, 'e, 'v) state \<Rightarrow> nat \<times> ('w, 'e, 'v) state" where
  "submit func s =
     (nfut s,
      s\<lparr> futures := (futures s)(nfut s := Pending),
         nfut := Suc (nfut s),
         queue := queue s @ [(nfut s, func)] \<rparr>)"

text \<open>\<^verbatim>\<open>Agent.start\<close>: has no suspension point.\<close>

definition start :: "('w, 'e, 'v) state \<Rightarrow> ('w, 'e, 'v) state" where
  "start s =
     (if \<not> running s
      then s\<lparr> running := True,
              worker := Some (ntasks s),
              tasks := (tasks s)(ntasks s := AtTop),
              ntasks := Suc (ntasks s) \<rparr>
      else s)"

text \<open>
  \<^verbatim>\<open>Agent.run\<close>, from the top of \<^verbatim>\<open>while True\<close> to the next suspension point of
  task \<open>i\<close>: \<^verbatim>\<open>break\<close>, \<^verbatim>\<open>asyncio.sleep(0)\<close>, or \<^verbatim>\<open>queue.get\<close> (which does not suspend on
  a non-empty queue) followed by \<^verbatim>\<open>asyncio.to_thread\<close>.
\<close>

definition run :: "nat \<Rightarrow> ('w, 'e, 'v) state \<Rightarrow> ('w, 'e, 'v) state" where
  "run i s =
     (if \<not> running s \<and> queue s = [] then s\<lparr> tasks := (tasks s)(i := Finished) \<rparr>
      else if running s \<and> queue s = [] then s\<lparr> tasks := (tasks s)(i := AtTop) \<rparr>
      else (case queue s of
              [] \<Rightarrow> s
            | (fut, func) # rest \<Rightarrow>
                s\<lparr> queue := rest, tasks := (tasks s)(i := InThread fut func) \<rparr>))"

text \<open>
  \<^verbatim>\<open>future.set_result\<close> and \<^verbatim>\<open>future.set_exception\<close> raise \<^verbatim>\<open>InvalidStateError\<close> on a
  future that is not pending.  In \<^verbatim>\<open>run\<close> the first is inside \<^verbatim>\<open>try\<close> and the second in
  the handler of \<^verbatim>\<open>except BaseException\<close>, so on such a future either way ends with an
  exception leaving \<^verbatim>\<open>run\<close>; on a pending future the outcome of the callable is stored.
\<close>

fun outcome :: "'e + 'v \<Rightarrow> ('e, 'v) future" where
  "outcome (Inr v) = Result v"
| "outcome (Inl e) = Exception e"

text \<open>
  Task \<open>i\<close> runs from its suspension point to the next one.  A task suspended in
  \<^verbatim>\<open>to_thread\<close> gets the outcome of its callable, resolves the future, calls
  \<^verbatim>\<open>task_done\<close> (a counter nothing reads) and goes round the loop.
\<close>

definition resume :: "nat \<Rightarrow> ('w, 'e, 'v) state \<Rightarrow> ('w, 'e, 'v) state" where
  "resume i s =
     (case tasks s i of
        AtTop \<Rightarrow> run i s
      | InThread fut func \<Rightarrow>
          (case func (world s) of
             (r, w') \<Rightarrow>
               if futures s fut = Pending
               then run i (s\<lparr> world := w', futures := (futures s)(fut := outcome r) \<rparr>)
               else s\<lparr> world := w', tasks := (tasks s)(i := Failed) \<rparr>)
      | Finished \<Rightarrow> s
      | Failed \<Rightarrow> s)"

text \<open>
  While a caller is suspended in an \<^verbatim>\<open>await\<close>, the event loop runs the other tasks.  One
  turn of the loop resumes every task once, in the order of their creation.
\<close>

definition turn :: "('w, 'e, 'v) state \<Rightarrow> ('w, 'e, 'v) state" where
  "turn s = fold resume [0..<ntasks s] s"

text \<open>
  \<^verbatim>\<open>await future\<close>: returns at once when the future is done, else the caller is suspended
  while the loop turns.  The first argument bounds the number of turns; \<open>None\<close> says that the
  future is still pending after that many.
\<close>

primrec await_future ::
  "nat \<Rightarrow> nat \<Rightarrow> ('w, 'e, 'v) state \<Rightarrow> ('w, 'e, 'v) state option" where
  "await_future 0 fut s = (if is_done (futures s fut) then Some s else None)"
| "await_future (Suc n) fut s =
     (if is_done (futures s fut) then Some s else await_future n fut (turn s))"

text \<open>\<^verbatim>\<open>future.result()\<close>.\<close>

fun future_result :: "('e, 'v) future \<Rightarrow> 'e exn + 'v" where
  "future_result (Result v) = Inr v"
| "future_result (Exception e) = Inl (Raised e)"
| "future_result Pending = Inl InvalidStateError"

text \<open>
  \<^verbatim>\<open>await self.worker\<close>: returns when the task has finished, raises the task's exception
  when it has failed, else the caller is suspended while the loop turns.
\<close>

primrec await_task ::
  "nat \<Rightarrow> nat \<Rightarrow> ('w, 'e, 'v) state \<Rightarrow> (('e exn + unit) \<times> ('w, 'e, 'v) state) option" where
  "await_task 0 i s =
     (case tasks s i of
        Finished \<Rightarrow> Some (Inr (), s)
      | Failed \<Rightarrow> Some (Inl InvalidStateError, s)
      | AtTop \<Rightarrow> None
      | InThread fut func \<Rightarrow> None)"
| "await_task (Suc n) i s =
     (case tasks s i of
        Finished \<Rightarrow> Some (Inr (), s)
      | Failed \<Rightarrow> Some (Inl InvalidStateError, s)
      | AtTop \<Rightarrow> await_task n i (turn s)
      | InThread fut func \<Rightarrow> await_task n i (turn s))"

text \<open>\<^verbatim>\<open>Agent.stop\<close>; the flag is cleared before the caller is suspended.\<close>

definition stop_flag :: "('w, 'e, 'v) state \<Rightarrow> ('w, 'e, 'v) state" where
  "stop_flag s = s\<lparr> running := False \<rparr>"

definition stop ::
  "nat \<Rightarrow> ('w, 'e, 'v) state \<Rightarrow> (('e exn + unit) \<times> ('w, 'e, 'v) state) option" where
  "stop n s =
     (if running s
      then (case worker s of
              None \<Rightarrow> Some (Inl TypeError, stop_flag s)
            | Some i \<Rightarrow> await_task n i (stop_flag s))
      else Some (Inr (), s))"

section \<open>Interleavings\<close>

text \<open>
  What can happen to one agent between two suspension points, in any order: a caller submits
  a callable, calls \<^verbatim>\<open>start\<close>, calls \<^verbatim>\<open>stop\<close> (which clears the flag and then waits), or
  the event loop resumes one of the tasks.  Callers never suspend inside \<^verbatim>\<open>submit\<close> or
  \<^verbatim>\<open>start\<close>, so each is one event.
\<close>

datatype ('w, 'e, 'v) event =
    Submit "('w, 'e, 'v) callable"
  | Start
  | Stop
  | Resume nat


fun fire :: "('w, 'e, 'v) event \<Rightarrow> ('w, 'e, 'v) state \<Rightarrow> ('w, 'e, 'v) state" where
  "fire (Submit func) s = snd (submit func s)"
| "fire Start s = start s"
| "fire Stop s = (if running s then stop_flag s else s)"
| "fire (Resume i) s = resume i s"

definition run_events ::
  "('w, 'e, 'v) event list \<Rightarrow> ('w, 'e, 'v) state \<Rightarrow> ('w, 'e, 'v) state" where
  "run_events evs s = fold fire evs s"

text \<open>
  \<^verbatim>\<open>start\<close> creates a task whenever \<open>running\<close> is false.  A caller that calls it on an agent
  that is not running while a task of that agent is still alive (after a \<^verbatim>\<open>stop\<close> that has
  not returned yet) gives the agent a second worker.  The interleavings in which that does not
  happen: every \<^verbatim>\<open>start\<close> finds the agent running, or with no task alive.
\<close>

definition no_task_alive :: "('w, 'e, 'v) state \<Rightarrow> bool" where
  "no_task_alive s = list_all (\<lambda>i. \<not> alive (tasks s i)) [0..<ntasks s]"

fun start_allowed :: "('w, 'e, 'v) event \<Rightarrow> ('w, 'e, 'v) state \<Rightarrow> bool" where
  "start_allowed Start s = (running s \<or> no_task_alive s)"
| "start_allowed e s = True"

fun one_worker :: "('w, 'e, 'v) event list \<Rightarrow> ('w, 'e, 'v) state \<Rightarrow> bool" where
  "one_worker [] s = True"
| "one_worker (e # evs) s = (start_allowed e s \<and> one_worker evs (fire e s))"

text \<open>
  The futures that are dequeued or queued, oldest first, and the number of futures that are
  neither.
\<close>

definition inflight :: "('w, 'e, 'v) state \<Rightarrow> nat list" where
  "inflight s = (case worker s of None \<Rightarrow> [] | Some i \<Rightarrow> in_thread (tasks s i))"

definition pending_order :: "('w, 'e, 'v) state \<Rightarrow> nat list" where
  "pending_order s = inflight s @ map fst (queue s)"

definition resolved_count :: "('w, 'e, 'v) state \<Rightarrow> nat" where
  "resolved_count s = nfut s - length (pending_order s)"

text \<open>
  The invariant of an agent with at most one task alive: that task is the one \<open>worker\<close> names,
  a running agent has it, the futures dequeued or queued are the youngest ones in the order of
  their creation, and exactly the older ones are done.
\<close>

definition agent_inv :: "('w, 'e, 'v) state \<Rightarrow> bool" where
  "agent_inv s \<longleftrightarrow>
     (\<forall>i. alive (tasks s i) \<longrightarrow> worker s = Some i \<and> i < ntasks s) \<and>
     (running s \<longrightarrow> (\<exists>i. worker s = Some i \<and> alive (tasks s i))) \<and>
     pending_order s = [resolved_count s..<nfut s] \<and>
     (\<forall>fut<nfut s. is_done (futures s fut) = (fut < resolved_count s))"

section \<open>The forwarding decorators of \<^verbatim>\<open>utils.py\<close>\<close>

text \<open>
  A decorator sets one attribute of the class per name.  What matters of a class here is which
  kind of attribute a name is bound to; a later \<^verbatim>\<open>setattr\<close> replaces an earlier binding.
\<close>

datatype member = Defined | Delegate | ProxyMethod | ProxyProperty

type_synonym cls = "string \<rightharpoonup> member"

definition delegate_to_agent :: "string list \<Rightarrow> cls \<Rightarrow> cls" where
  "delegate_to_agent attrs cls = fold (\<lambda>attr_name c. c(attr_name \<mapsto> Delegate)) attrs cls"

definition proxy_method_directly :: "string list \<Rightarrow> cls \<Rightarrow> cls" where
  "proxy_method_directly attrs cls = fold (\<lambda>attr_name c. c(attr_name \<mapsto> ProxyMethod)) attrs cls"

definition proxy_property_directly :: "string list \<Rightarrow> cls \<Rightarrow> cls" where
  "proxy_property_directly attrs cls =
     fold (\<lambda>attr_name c. c(attr_name \<mapsto> ProxyProperty)) attrs cls"

text \<open>
  \<^verbatim>\<open>_make_delegate_method\<close>: the method looks the name up on \<^verbatim>\<open>self._connection\<close> and hands
  the bound method with the arguments to \<^verbatim>\<open>self._execute\<close>.  \<open>private_execute\<close> is the
  \<^verbatim>\<open>_execute\<close> of the class of \<^verbatim>\<open>self\<close>; \<open>handle\<close> is \<^verbatim>\<open>self._connection\<close>, a function from
  the name of a method and the arguments to the callable.
\<close>

definition make_delegate_method ::
  "(('w, 'e, 'v) callable \<Rightarrow> 'c) \<Rightarrow> (string \<Rightarrow> 'x list \<Rightarrow> ('w, 'e, 'v) callable)
   \<Rightarrow> string \<Rightarrow> 'x list \<Rightarrow> 'c" where
  "make_delegate_method private_execute handle attr_name args =
     private_execute (handle attr_name args)"

text \<open>\<^verbatim>\<open>_make_proxy_method\<close>: the bound method is called where the caller stands.\<close>

definition make_proxy_method ::
  "(string \<Rightarrow> 'x list \<Rightarrow> ('w, 'e, 'v) callable) \<Rightarrow> string \<Rightarrow> 'x list
   \<Rightarrow> ('w, 'e, 'v) state \<Rightarrow> ('e + 'v) \<times> ('w, 'e, 'v) state" where
  "make_proxy_method handle attr_name args s =
     (case handle attr_name args (world s) of (r, w') \<Rightarrow> (r, s\<lparr> world := w' \<rparr>))"

text \<open>
  \<^verbatim>\<open>_make_proxy_property\<close>: the property reads the attribute of \<^verbatim>\<open>self._connection\<close>;
  \<open>attribute\<close> gives the value of a data attribute of the handle in a state of the handles.
\<close>

definition make_proxy_property ::
  "(string \<Rightarrow> 'w \<Rightarrow> 'v) \<Rightarrow> string \<Rightarrow> ('w, 'e, 'v) state \<Rightarrow> 'v \<times> ('w, 'e, 'v) state" where
  "make_proxy_property attribute attr_name s = (attribute attr_name (world s), s)"

section \<open>AsyncConnection\<close>

text \<open>The names the class body of \<^verbatim>\<open>AsyncConnection\<close> defines, then the two decorators.\<close>

definition AsyncConnection_body :: cls where
  "AsyncConnection_body =
     map_of (map (\<lambda>name. (name, Defined))
       [''__init__'', ''__aenter__'', ''__aexit__'', ''_execute'', ''cursor'', ''close'',
        ''execute'', ''executemany''])"

definition AsyncConnection_cls :: cls where
  "AsyncConnection_cls =
     delegate_to_agent
       [''begin'', ''commit'', ''rollback'', ''checkpoint'', ''load_extension'',
        ''create_function'', ''remove_function'']
       (proxy_property_directly [''rowcount''] AsyncConnection_body)"

text \<open>
  A coroutine of a session or a cursor, run by one caller to its end while the event loop turns
  at each of its suspension points: \<open>None\<close> when it has not returned within the bound on the
  turns, else what it raised or returned and the state it left.
\<close>

type_synonym ('w, 'e, 'v, 'a) coroutine = "(('e exn + 'a) \<times> ('w, 'e, 'v) state) option"

text \<open>\<^verbatim>\<open>AsyncConnection.__aenter__\<close>.\<close>

definition AsyncConnection_aenter :: "('w, 'e, 'v) state \<Rightarrow> ('w, 'e, 'v) state" where
  "AsyncConnection_aenter s = (if \<not> running s then start s else s)"

text \<open>
  \<^verbatim>\<open>AsyncConnection._execute\<close>.  \<^verbatim>\<open>await future\<close> already raises the exception of a future
  that holds one, the same that \<^verbatim>\<open>future.result()\<close> would raise.
\<close>

definition AsyncConnection_private_execute ::
  "nat \<Rightarrow> ('w, 'e, 'v) callable \<Rightarrow> ('w, 'e, 'v) state \<Rightarrow> ('w, 'e, 'v, 'v) coroutine" where
  "AsyncConnection_private_execute n func s =
     (case submit func (if \<not> running s then start s else s) of
        (fut, s2) \<Rightarrow>
          (case await_future n fut s2 of
             None \<Rightarrow> None
           | Some s3 \<Rightarrow> Some (future_result (futures s3 fut), s3)))"

text \<open>\<^verbatim>\<open>AsyncConnection.close\<close>.\<close>

definition AsyncConnection_close ::
  "nat \<Rightarrow> (string \<Rightarrow> 'x list \<Rightarrow> ('w, 'e, 'v) callable) \<Rightarrow> ('w, 'e, 'v) state
   \<Rightarrow> ('w, 'e, 'v, unit) coroutine" where
  "AsyncConnection_close n handle s =
     (case AsyncConnection_private_execute n (handle ''close'' []) s of
        None \<Rightarrow> None
      | Some (Inl e, s1) \<Rightarrow> Some (Inl e, s1)
      | Some (Inr v, s1) \<Rightarrow> (if running s1 then stop n s1 else Some (Inr (), s1)))"

text \<open>\<^verbatim>\<open>AsyncConnection.__aexit__\<close>; the three arguments that describe the exception are not read.\<close>

definition AsyncConnection_aexit ::
  "nat \<Rightarrow> (string \<Rightarrow> 'x list \<Rightarrow> ('w, 'e, 'v) callable) \<Rightarrow> ('w, 'e, 'v) state
   \<Rightarrow> ('w, 'e, 'v, unit) coroutine" where
  "AsyncConnection_aexit n handle s =
     (case AsyncConnection_close n handle s of
        None \<Rightarrow> None
      | Some (Inl e, s1) \<Rightarrow> Some (Inl e, s1)
      | Some (Inr u, s1) \<Rightarrow> (if running s1 then stop n s1 else Some (Inr (), s1)))"


section \<open>AsyncCursor\<close>

definition AsyncCursor_cls :: cls where
  "AsyncCursor_cls =
     delegate_to_agent
       [''close'', ''execute'', ''executemany'', ''fetchall'', ''fetchdf'', ''fetchmany'',
        ''fetchnumpy'', ''fetchone'', ''fetch_arrow_table'', ''fetch_df'', ''fetch_df_chunk'',
        ''fetch_record_batch'', ''df'', ''pl'', ''tf'', ''torch'']
       (map_of (map (\<lambda>name. (name, Defined))
          [''__init__'', ''__aenter__'', ''__aexit__'', ''__aiter__'', ''_execute'']))"

text \<open>\<^verbatim>\<open>AsyncCursor._execute\<close>: as the session's, without the call of \<^verbatim>\<open>start\<close>.\<close>

definition AsyncCursor_private_execute ::
  "nat \<Rightarrow> ('w, 'e, 'v) callable \<Rightarrow> ('w, 'e, 'v) state \<Rightarrow> ('w, 'e, 'v, 'v) coroutine" where
  "AsyncCursor_private_execute n func s =
     (case submit func s of
        (fut, s2) \<Rightarrow>
          (case await_future n fut s2 of
             None \<Rightarrow> None
           | Some s3 \<Rightarrow> Some (future_result (futures s3 fut), s3)))"



text \<open>
  \<^verbatim>\<open>AsyncCursor.__aiter__\<close> is an asynchronous generator.  Between two requests of its
  consumer it is not yet started, or suspended at \<^verbatim>\<open>yield row\<close> with the rows of the batch
  that \<^verbatim>\<open>for row in rows\<close> has still to yield, or closed (it returned or raised).
\<close>

datatype 'r generator = Created | Suspended "'r list" | Closed

text \<open>
  From the top of \<^verbatim>\<open>while True\<close> to the next \<^verbatim>\<open>yield\<close>: \<^verbatim>\<open>self.fetchmany(size=100)\<close> is the
  delegate that the decorator made; an empty batch ends the generator (\<open>Inr None\<close>, the
  consumer's \<^verbatim>\<open>StopAsyncIteration\<close>).
\<close>

definition fetch_batch ::
  "nat \<Rightarrow> (string \<Rightarrow> nat list \<Rightarrow> ('w, 'e, 'r list) callable) \<Rightarrow> ('w, 'e, 'r list) state
   \<Rightarrow> (('e exn + 'r option) \<times> 'r generator \<times> ('w, 'e, 'r list) state) option" where
  "fetch_batch n handle s =
     (case make_delegate_method (AsyncCursor_private_execute n) handle ''fetchmany'' [100] s of
        None \<Rightarrow> None
      | Some (Inl e, s1) \<Rightarrow> Some (Inl e, Closed, s1)
      | Some (Inr rows, s1) \<Rightarrow>
          (case rows of
             [] \<Rightarrow> Some (Inr None, Closed, s1)
           | row # rest \<Rightarrow> Some (Inr (Some row), Suspended rest, s1)))"

text \<open>One request of the consumer (\<^verbatim>\<open>__anext__\<close>) to the generator.\<close>

fun AsyncCursor_aiter ::
  "nat \<Rightarrow> (string \<Rightarrow> nat list \<Rightarrow> ('w, 'e, 'r list) callable) \<Rightarrow> 'r generator
   \<Rightarrow> ('w, 'e, 'r list) state
   \<Rightarrow> (('e exn + 'r option) \<times> 'r generator \<times> ('w, 'e, 'r list) state) option" where
  "AsyncCursor_aiter n handle Created s = fetch_batch n handle s"
| "AsyncCursor_aiter n handle (Suspended []) s = fetch_batch n handle s"
| "AsyncCursor_aiter n handle (Suspended (row # rest)) s =
     Some (Inr (Some row), Suspended rest, s)"
| "AsyncCursor_aiter n handle Closed s = Some (Inr None, Closed, s)"

text \<open>
  A consumer that iterates to the end (\<^verbatim>\<open>async for row in cursor\<close>) and collects the rows; the
  first argument bounds the number of its requests.
\<close>

fun async_for ::
  "nat \<Rightarrow> nat \<Rightarrow> (string \<Rightarrow> nat list \<Rightarrow> ('w, 'e, 'r list) callable) \<Rightarrow> 'r generator
   \<Rightarrow> ('w, 'e, 'r list) state \<Rightarrow> ('w, 'e, 'r list, 'r list) coroutine" where
  "async_for 0 n handle g s = None"
| "async_for (Suc k) n handle g s =
     (case AsyncCursor_aiter n handle g s of
        None \<Rightarrow> None
      | Some (Inl e, g', s') \<Rightarrow> Some (Inl e, s')
      | Some (Inr None, g', s') \<Rightarrow> Some (Inr [], s')
      | Some (Inr (Some row), g', s') \<Rightarrow>
          (case async_for k n handle g' s' of
             None \<Rightarrow> None
           | Some (Inl e, s'') \<Rightarrow> Some (Inl e, s'')
           | Some (Inr rows, s'') \<Rightarrow> Some (Inr (row # rows), s'')))"

section \<open>The underlying cursor\<close>

text \<open>
  Modelled from the spec: the cursor handle of the database engine is not code of this
  repository.  A cursor is backed by a result set; its batched fetch (\<^verbatim>\<open>fetchmany\<close>, "many
  rows with a count") returns the next rows, at most as many as asked for, and an empty list
  once the result set is used up.  \<open>fetched\<close> records the size of every batch returned, one
  entry per call.
\<close>

record 'r result_set =
  remaining :: "'r list"
  fetched :: "nat list"

definition cursor_handle ::
  "string \<Rightarrow> nat list \<Rightarrow> ('r result_set, string, 'r list) callable" where
  "cursor_handle attr_name args c =
     (if attr_name = ''fetchmany''
      then (case args of
              [count] \<Rightarrow>
                (Inr (take count (remaining c)),
                 c\<lparr> remaining := drop count (remaining c),
                    fetched := fetched c @ [length (take count (remaining c))] \<rparr>)
            | _ \<Rightarrow> (Inl ''TypeError'', c))
      else (Inl ''AttributeError'', c))"

text \<open>The sizes of the batches that a result set of \<open>m\<close> rows gives, the empty one last.\<close>

fun batches :: "nat \<Rightarrow> nat list" where
  "batches m = (if m = 0 then [0] else min 100 m # batches (m - 100))"

section \<open>States between two calls\<close>

text \<open>
  A state in which no caller is suspended and nothing is queued or dequeued: a running agent
  has its worker at the top of the loop, an agent that is not running has no task alive.
\<close>

definition idle :: "('w, 'e, 'v) state \<Rightarrow> bool" where
  "idle s \<longleftrightarrow>
     agent_inv s \<and> queue s = [] \<and>
     (if running s then (\<exists>i. worker s = Some i \<and> tasks s i = AtTop)
      else (\<forall>i. \<not> alive (tasks s i)))"

text \<open>
  The callables that are ahead of the next submission: the one a worker runs in a thread and
  the queued ones, oldest first; and the state in which the handles are once these have run,
  one after the other.
\<close>

fun callables :: "('w, 'e, 'v) task \<Rightarrow> ('w, 'e, 'v) callable list" where
  "callables (InThread fut func) = [func]"
| "callables t = []"

definition effect :: "('w, 'e, 'v) callable \<Rightarrow> 'w \<Rightarrow> 'w" where
  "effect func w = snd (func w)"

definition ahead :: "('w, 'e, 'v) state \<Rightarrow> ('w, 'e, 'v) callable list" where
  "ahead s =
     (case worker s of None \<Rightarrow> [] | Some i \<Rightarrow> callables (tasks s i)) @ map snd (queue s)"

definition world_after :: "('w, 'e, 'v) state \<Rightarrow> 'w" where
  "world_after s = fold effect (ahead s) (world s)"

text \<open>
  A state with at most one worker, in which a session may start the agent: the invariant
  holds, and an agent that is not running has no task alive.
\<close>

definition orderly :: "('w, 'e, 'v) state \<Rightarrow> bool" where
  "orderly s \<longleftrightarrow> agent_inv s \<and> (running s \<or> no_task_alive s)"

text \<open>The state in which an idle, running agent is after it has served one submitted call.\<close>

definition served :: "('w, 'e, 'v) state \<Rightarrow> 'e + 'v \<Rightarrow> 'w \<Rightarrow> ('w, 'e, 'v) state" where
  "served s r w' =
     s\<lparr> futures := (futures s)(nfut s := outcome r), nfut := Suc (nfut s), world := w' \<rparr>"

text \<open>One caller awaits a coroutine and, when that has returned, goes on with the next.\<close>

definition and_then ::
  "('w, 'e, 'v, 'a) coroutine \<Rightarrow> (('w, 'e, 'v) state \<Rightarrow> ('w, 'e, 'v, 'b) coroutine)
   \<Rightarrow> ('w, 'e, 'v, 'b) coroutine" where
  "and_then c next_call =
     (case c of
        None \<Rightarrow> None
      | Some (Inl e, s) \<Rightarrow> Some (Inl e, s)
      | Some (Inr v, s) \<Rightarrow> next_call s)"

section \<open>Handles and callables for the examples\<close>

definition returning :: "(nat, string, nat) callable" where
  "returning w = (Inr w, Suc w)"

definition raising :: "(nat, string, nat) callable" where
  "raising w = (Inl ''boom'', w)"

definition sound_handle :: "string \<Rightarrow> nat list \<Rightarrow> (nat, string, nat) callable" where
  "sound_handle attr_name args = returning"

definition broken_handle :: "string \<Rightarrow> nat list \<Rightarrow> (nat, string, nat) callable" where
  "broken_handle attr_name args = (if attr_name = ''close'' then raising else returning)"


definition racing_trace :: "(nat, string, nat) event list" where
  "racing_trace =
     [Start, Submit returning, Resume 0, Stop, Start, Submit raising, Resume 1, Resume 1]"


definition two_queued :: "(nat, string, nat) state" where
  "two_queued = run_events [Start, Submit returning, Submit raising] (Agent_init 0)"



definition entered :: "(nat, string, nat) state" where
  "entered = AsyncConnection_aenter (Agent_init 0)"

definition cursor_ready :: "(nat result_set, string, nat list) state" where
  "cursor_ready = start (Agent_init \<lparr> remaining = [0..<250], fetched = [] \<rparr>)"


definition left_by_body :: "(nat, string, nat) state" where
  "left_by_body = snd (submit returning entered)"

section \<open>The invariant of a single worker\<close>

lemma agent_inv_init: "agent_inv (Agent_init w)"
  by (simp add: agent_inv_def Agent_init_def pending_order_def inflight_def resolved_count_def)

lemma agent_inv_iff:
  "agent_inv s \<longleftrightarrow>
     (\<forall>i. alive (tasks s i) \<longrightarrow> worker s = Some i \<and> i < ntasks s) \<and>
     (running s \<longrightarrow> (\<exists>i. worker s = Some i \<and> alive (tasks s i))) \<and>
     (\<exists>k\<le>nfut s. pending_order s = [k..<nfut s] \<and>
        (\<forall>fut<nfut s. is_done (futures s fut) = (fut < k)))"
proof -
  have a: "\<exists>k\<le>nfut s. pending_order s = [k..<nfut s] \<and> (\<forall>fut<nfut s. is_done (futures s fut) = (fut < k))"
    if "pending_order s = [resolved_count s..<nfut s]"
      and "\<forall>fut<nfut s. is_done (futures s fut) = (fut < resolved_count s)"
    using that by (intro exI [of _ "resolved_count s"]) (simp add: resolved_count_def)
  have b: "resolved_count s = k" if "k \<le> nfut s" and "pending_order s = [k..<nfut s]" for k
    using that by (simp add: resolved_count_def)
  show ?thesis
    unfolding agent_inv_def using a b by blast
qed

lemma agent_inv_aliveD:
  "agent_inv s \<Longrightarrow> alive (tasks s j) \<Longrightarrow> worker s = Some j \<and> j < ntasks s"
  by (simp add: agent_inv_def)

lemma pending_order_submit:
  "pending_order (snd (submit func s)) = pending_order s @ [nfut s]"
  by (simp add: submit_def pending_order_def inflight_def split: option.splits)

lemma agent_inv_submit:
  assumes "agent_inv s"
  shows "agent_inv (snd (submit func s))"
proof -
  from assms obtain k where k: "k \<le> nfut s" "pending_order s = [k..<nfut s]"
    "\<forall>fut<nfut s. is_done (futures s fut) = (fut < k)"
    unfolding agent_inv_iff by blast
  have "pending_order (snd (submit func s)) = [k..<nfut (snd (submit func s))]"
    using k by (simp add: pending_order_submit) (simp add: submit_def)
  moreover have "\<forall>fut<nfut (snd (submit func s)).
      is_done (futures (snd (submit func s)) fut) = (fut < k)"
    using k by (auto simp: submit_def less_Suc_eq)
  moreover have "k \<le> nfut (snd (submit func s))"
    using k by (simp add: submit_def)
  moreover have "\<forall>i. alive (tasks (snd (submit func s)) i) \<longrightarrow>
      worker (snd (submit func s)) = Some i \<and> i < ntasks (snd (submit func s))"
    using assms by (simp add: agent_inv_def submit_def)
  moreover have "running (snd (submit func s)) \<longrightarrow>
      (\<exists>i. worker (snd (submit func s)) = Some i \<and> alive (tasks (snd (submit func s)) i))"
    using assms by (simp add: agent_inv_def submit_def)
  ultimately show ?thesis
    unfolding agent_inv_iff by blast
qed

lemma agent_inv_stop_flag: "agent_inv s \<Longrightarrow> agent_inv (stop_flag s)"
  by (simp add: agent_inv_def stop_flag_def pending_order_def inflight_def resolved_count_def
      cong: option.case_cong)

lemma agent_inv_run:
  assumes "agent_inv s" and "worker s = Some i" and "tasks s i = AtTop" and "i < ntasks s"
  shows "agent_inv (run i s)"
proof (cases "queue s")
  case Nil
  then show ?thesis
    using assms
    by (auto simp: agent_inv_def run_def pending_order_def inflight_def resolved_count_def)
next
  case (Cons a rest)
  obtain fut func where a: "a = (fut, func)" by (cases a)
  have r: "run i s = s\<lparr> queue := rest, tasks := (tasks s)(i := InThread fut func) \<rparr>"
    using Cons a by (simp add: run_def)
  have p: "pending_order (run i s) = pending_order s"
    using assms Cons a by (simp add: r pending_order_def inflight_def)
  show ?thesis
    using assms p unfolding agent_inv_def resolved_count_def p
    by (auto simp: r)
qed

lemma run_tasks_upd: "run i (s\<lparr> tasks := (tasks s)(i := t) \<rparr>) = run i s"
  by (cases "queue s") (auto simp: run_def)

lemma resume_dead: "\<not> alive (tasks s i) \<Longrightarrow> resume i s = s"
  by (cases "tasks s i") (simp_all add: resume_def)

lemma agent_inv_completed:
  assumes inv: "agent_inv s" and w: "worker s = Some i" and t: "tasks s i = InThread fut func"
  shows "futures s fut = Pending"
    and "agent_inv (s\<lparr> world := w', futures := (futures s)(fut := outcome r),
                       tasks := (tasks s)(i := AtTop) \<rparr>)"
proof -
  from inv obtain k where k: "k \<le> nfut s" "pending_order s = [k..<nfut s]"
    "\<forall>fut<nfut s. is_done (futures s fut) = (fut < k)"
    unfolding agent_inv_iff by blast
  have p: "pending_order s = fut # map fst (queue s)"
    using w t by (simp add: pending_order_def inflight_def)
  have lt: "k < nfut s"
    using k(2) p by (cases "k < nfut s") simp_all
  then have eq: "fut = k" and rest: "map fst (queue s) = [Suc k..<nfut s]"
    using k(2) p by (simp_all add: upt_conv_Cons)
  have "\<not> is_done (futures s fut)"
    using k(3) lt eq by simp
  then show "futures s fut = Pending"
    by (cases "futures s fut") simp_all
  let ?s = "s\<lparr> world := w', futures := (futures s)(fut := outcome r),
               tasks := (tasks s)(i := AtTop) \<rparr>"
  have d: "is_done (outcome r)"
    by (cases r) simp_all
  have "pending_order ?s = [Suc k..<nfut ?s]"
    using w rest by (simp add: pending_order_def inflight_def)
  moreover have "\<forall>f<nfut ?s. is_done (futures ?s f) = (f < Suc k)"
    using k(3) eq d by (auto simp: less_Suc_eq)
  moreover have "Suc k \<le> nfut ?s"
    using lt by simp
  moreover have "\<forall>j. alive (tasks ?s j) \<longrightarrow> worker ?s = Some j \<and> j < ntasks ?s"
    using inv w t by (simp add: agent_inv_def)
  moreover have "running ?s \<longrightarrow> (\<exists>j. worker ?s = Some j \<and> alive (tasks ?s j))"
    using w by simp
  ultimately show "agent_inv ?s"
    unfolding agent_inv_iff by blast
qed

lemma agent_inv_resume:
  assumes inv: "agent_inv s"
  shows "agent_inv (resume i s)"
proof (cases "tasks s i")
  case AtTop
  then have "worker s = Some i" "i < ntasks s"
    using inv by (simp_all add: agent_inv_def)
  then show ?thesis
    using inv AtTop by (simp add: resume_def agent_inv_run)
next
  case (InThread fut func)
  then have w: "worker s = Some i"
    using inv by (simp add: agent_inv_def)
  obtain r w' where f: "func (world s) = (r, w')"
    by (cases "func (world s)")
  let ?s = "s\<lparr> world := w', futures := (futures s)(fut := outcome r) \<rparr>"
  have a: "agent_inv (?s\<lparr> tasks := (tasks ?s)(i := AtTop) \<rparr>)"
    using agent_inv_completed(2) [OF inv w InThread, where w' = w' and r = r] by simp
  have "worker (?s\<lparr> tasks := (tasks ?s)(i := AtTop) \<rparr>) = Some i"
    "i < ntasks (?s\<lparr> tasks := (tasks ?s)(i := AtTop) \<rparr>)"
    using w inv InThread by (simp_all add: agent_inv_def)
  then have "agent_inv (run i (?s\<lparr> tasks := (tasks ?s)(i := AtTop) \<rparr>))"
    using a by (intro agent_inv_run) simp_all
  then have "agent_inv (run i ?s)"
    by (simp only: run_tasks_upd)
  then show ?thesis
    using InThread f agent_inv_completed(1) [OF inv w InThread]
    by (simp add: resume_def)
next
  case Finished
  then show ?thesis using inv by (simp add: resume_dead)
next
  case Failed
  then show ?thesis using inv by (simp add: resume_dead)
qed

lemma agent_inv_start:
  assumes "agent_inv s" and "running s \<or> (\<forall>i. \<not> alive (tasks s i))"
  shows "agent_inv (start s)"
proof (cases "running s")
  case True
  then show ?thesis using assms by (simp add: start_def)
next
  case False
  then have d: "\<forall>i. \<not> alive (tasks s i)"
    using assms by simp
  have "in_thread (tasks s i) = []" for i
    using d [rule_format, of i] by (cases "tasks s i") simp_all
  then have "inflight s = []"
    by (simp add: inflight_def split: option.splits)
  then have "pending_order (start s) = pending_order s"
    using False by (simp add: start_def pending_order_def inflight_def)
  then show ?thesis
    using assms False d by (simp add: agent_inv_def resolved_count_def) (simp add: start_def)
qed



section \<open>Order of resolution\<close>

lemma no_task_alive_iff:
  "agent_inv s \<Longrightarrow> no_task_alive s \<longleftrightarrow> (\<forall>i. \<not> alive (tasks s i))"
  unfolding no_task_alive_def list_all_iff
  using agent_inv_aliveD [of s] by auto

lemma agent_inv_fire_allowed:
  assumes "agent_inv s" and "start_allowed e s"
  shows "agent_inv (fire e s)"
proof (cases e)
  case Start
  then have "running s \<or> (\<forall>i. \<not> alive (tasks s i))"
    using assms by (simp add: no_task_alive_iff)
  then show ?thesis
    using assms(1) Start by (simp add: agent_inv_start)
qed (use assms(1) in \<open>simp_all add: agent_inv_submit agent_inv_stop_flag agent_inv_resume\<close>)

lemma agent_inv_one_worker:
  "agent_inv s \<Longrightarrow> one_worker evs s \<Longrightarrow> agent_inv (run_events evs s)"
  unfolding run_events_def
  by (induction evs arbitrary: s) (simp_all add: agent_inv_fire_allowed)




text \<open>
  The condition on \<^verbatim>\<open>start\<close> is needed.  When a caller starts the agent again while a
  \<^verbatim>\<open>stop\<close> is still waiting for a worker that is busy, two workers are alive, and the second
  can resolve a younger future while the first has not yet resolved an older one.
\<close>

lemma second_worker_overtakes:
  "\<not> one_worker racing_trace (Agent_init 0) \<and>
   \<not> is_done (futures (run_events racing_trace (Agent_init 0)) 0) \<and>
   is_done (futures (run_events racing_trace (Agent_init 0)) 1) \<and>
   alive (tasks (run_events racing_trace (Agent_init 0)) 0) \<and>
   alive (tasks (run_events racing_trace (Agent_init 0)) 1)"
  by (simp add: racing_trace_def run_events_def no_task_alive_def start_def submit_def
      stop_flag_def resume_def run_def Agent_init_def returning_def raising_def)

section \<open>What a turn of the loop leaves unchanged\<close>

lemma run_frame:
  "running (run i s) = running s" "worker (run i s) = worker s" "ntasks (run i s) = ntasks s"
  "nfut (run i s) = nfut s"
  by (cases "queue s"; auto simp: run_def)+

lemma resume_frame:
  "running (resume i s) = running s" "worker (resume i s) = worker s"
  "ntasks (resume i s) = ntasks s" "nfut (resume i s) = nfut s"
  by (cases "tasks s i"; simp add: resume_def run_frame split: prod.splits)+

lemma fold_resume_frame:
  "running (fold resume xs s) = running s \<and> worker (fold resume xs s) = worker s \<and>
   ntasks (fold resume xs s) = ntasks s \<and> nfut (fold resume xs s) = nfut s"
  by (induction xs arbitrary: s) (simp_all add: resume_frame)

lemma turn_frame:
  "running (turn s) = running s" "worker (turn s) = worker s" "ntasks (turn s) = ntasks s"
  "nfut (turn s) = nfut s"
  by (simp_all add: turn_def fold_resume_frame)

lemma await_task_frame:
  "await_task n i s = Some (r, s') \<Longrightarrow>
   running s' = running s \<and> worker s' = worker s \<and> ntasks s' = ntasks s \<and> nfut s' = nfut s"
  by (induction n arbitrary: s) (auto simp: turn_frame split: task.splits)

lemma stop_not_running: "stop n s = Some (r, s') \<Longrightarrow> \<not> running s'"
  by (auto simp: stop_def stop_flag_def dest!: await_task_frame split: if_splits option.splits)

text \<open>
  Claim C8.  \<^verbatim>\<open>start\<close> on a running agent changes nothing (no second task is created), so
  \<^verbatim>\<open>start\<close> twice is \<^verbatim>\<open>start\<close> once; \<^verbatim>\<open>stop\<close> on an agent that is not running returns at
  once and changes nothing, and that is the state in which a \<^verbatim>\<open>stop\<close> that has returned leaves
  the agent, so a second \<^verbatim>\<open>stop\<close> is a no-op.
\<close>

theorem start_stop_idempotent:
  "(running s \<longrightarrow> start s = s) \<and>
   start (start s) = start s \<and>
   (\<not> running s \<longrightarrow> stop n s = Some (Inr (), s)) \<and>
   (stop n s = Some (r, s') \<longrightarrow> stop m s' = Some (Inr (), s'))"
proof -
  have "stop m s' = Some (Inr (), s')" if "stop n s = Some (r, s')"
    using stop_not_running [OF that] by (simp add: stop_def)
  then show ?thesis
    by (simp add: start_def stop_def)
qed

theorem start_stop_idempotent_witness:
  "running (start (Agent_init 0 :: (nat, string, nat) state)) \<and>
   start (start (Agent_init 0 :: (nat, string, nat) state)) = start (Agent_init 0) \<and>
   \<not> running (Agent_init 0 :: (nat, string, nat) state) \<and>
   stop 1 (Agent_init 0 :: (nat, string, nat) state) = Some (Inr (), Agent_init 0) \<and>
   (\<exists>s'. stop 1 (start (Agent_init 0 :: (nat, string, nat) state)) = Some (Inr (), s') \<and>
         stop 1 s' = Some (Inr (), s'))"
proof -
  let ?s0 = "Agent_init 0 :: (nat, string, nat) state"
  have r1: "running (start ?s0)" and r0: "\<not> running ?s0"
    by (simp_all add: start_def Agent_init_def)
  obtain s' where s': "stop 1 (start ?s0) = Some (Inr (), s')"
    by (simp add: stop_def stop_flag_def start_def Agent_init_def turn_def resume_def run_def)
  from start_stop_idempotent [of "start ?s0" 1 "Inr ()" s' 1] s'
  have "stop 1 s' = Some (Inr (), s')"
    by simp
  moreover from start_stop_idempotent [of ?s0 1] r0
  have "start (start ?s0) = start ?s0" and "stop 1 ?s0 = Some (Inr (), ?s0)"
    by simp_all
  ultimately show ?thesis
    using r1 r0 s' by blast
qed

section \<open>Turns of the loop with at most one task alive\<close>

lemma resume_tasks_other: "j \<noteq> i \<Longrightarrow> tasks (resume i s) j = tasks s j"
  by (cases "tasks s i"; cases "queue s")
    (auto simp: resume_def run_def split: prod.splits)

lemma fold_resume_dead:
  "\<forall>i\<in>set xs. \<not> alive (tasks s i) \<Longrightarrow> fold resume xs s = s"
  by (induction xs) (simp_all add: resume_dead)

lemma turn_dead: "\<forall>i. \<not> alive (tasks s i) \<Longrightarrow> turn s = s"
  by (simp add: turn_def fold_resume_dead)

lemma turn_single:
  assumes "agent_inv s" and "worker s = Some i" and "alive (tasks s i)"
  shows "turn s = resume i s"
proof -
  have lt: "i < ntasks s"
    using assms(1,3) by (simp add: agent_inv_aliveD)
  have others: "\<forall>j. j \<noteq> i \<longrightarrow> \<not> alive (tasks s j)"
    using agent_inv_aliveD [OF assms(1)] assms(2) by fastforce
  have "i + (ntasks s - i) = ntasks s"
    using lt by simp
  moreover have "[0..<i + (ntasks s - i)] = [0..<i] @ [i..<i + (ntasks s - i)]"
    by (rule upt_add_eq_append) simp
  ultimately have "[0..<ntasks s] = [0..<i] @ [i..<ntasks s]"
    by (simp only:)
  also have "[i..<ntasks s] = i # [Suc i..<ntasks s]"
    using lt by (rule upt_conv_Cons)
  finally have split: "[0..<ntasks s] = [0..<i] @ i # [Suc i..<ntasks s]" .
  have "fold resume [0..<i] s = s"
    using others by (intro fold_resume_dead) simp
  moreover have "fold resume [Suc i..<ntasks s] (resume i s) = resume i s"
    using others by (intro fold_resume_dead) (simp add: resume_tasks_other)
  ultimately show ?thesis
    unfolding turn_def split by simp
qed

lemma agent_inv_turn: "agent_inv s \<Longrightarrow> agent_inv (turn s)"
proof (cases "\<exists>i. alive (tasks s i)")
  case True
  assume inv: "agent_inv s"
  from True obtain i where i: "alive (tasks s i)" ..
  then have "worker s = Some i"
    using inv by (simp add: agent_inv_def)
  then show ?thesis
    using inv i by (simp add: turn_single agent_inv_resume)
next
  case False
  assume "agent_inv s"
  then show ?thesis
    using False by (simp add: turn_dead)
qed

section \<open>One call on an idle agent\<close>

lemma idle_start: "idle s \<Longrightarrow> idle (start s)"
proof (cases "running s")
  case True
  assume "idle s"
  then show ?thesis using True by (simp add: start_def)
next
  case False
  assume i: "idle s"
  then have "agent_inv (start s)"
    using False by (intro agent_inv_start) (simp_all add: idle_def)
  then show ?thesis
    using i False by (simp add: idle_def) (simp add: start_def)
qed

lemma await_future_done: "is_done (futures s fut) \<Longrightarrow> await_future n fut s = Some s"
  by (cases n) simp_all

lemma await_submit_idle:
  assumes "idle s" and "running s" and "func (world s) = (r, w')"
  shows "await_future (Suc (Suc n)) (nfut s) (snd (submit func s)) =
           Some (s\<lparr> futures := (futures s)(nfut s := outcome r),
                     nfut := Suc (nfut s), world := w' \<rparr>)"
    and "idle (s\<lparr> futures := (futures s)(nfut s := outcome r),
                     nfut := Suc (nfut s), world := w' \<rparr>)"
proof -
  from assms obtain i where i: "worker s = Some i" "tasks s i = AtTop" and q: "queue s = []"
    and inv: "agent_inv s"
    by (auto simp: idle_def)
  let ?s2 = "snd (submit func s)"
  let ?s3 = "?s2\<lparr> queue := [], tasks := (tasks s)(i := InThread (nfut s) func) \<rparr>"
  let ?s4 = "s\<lparr> futures := (futures s)(nfut s := outcome r),
                     nfut := Suc (nfut s), world := w' \<rparr>"
  have inv2: "agent_inv ?s2"
    using inv by (rule agent_inv_submit)
  have t2: "turn ?s2 = ?s3"
    using inv2 i q assms(2)
    by (subst turn_single [where i = i]) (simp_all add: submit_def resume_def run_def)
  have inv3: "agent_inv ?s3"
    using agent_inv_turn [OF inv2] by (simp only: t2)
  have d: "is_done (outcome r)"
    by (cases r) simp_all
  have t3: "turn ?s3 = ?s4"
    using inv3 i q assms(2,3)
    by (subst turn_single [where i = i])
      (simp_all add: submit_def resume_def run_def fun_upd_idem_iff)
  show "await_future (Suc (Suc n)) (nfut s) ?s2 = Some ?s4"
  proof -
    have "await_future (Suc (Suc n)) (nfut s) ?s2 = await_future (Suc n) (nfut s) ?s3"
      by (simp add: t2) (simp add: submit_def)
    also have "\<dots> = await_future n (nfut s) ?s4"
      by (simp add: t3) (simp add: submit_def)
    also have "\<dots> = Some ?s4"
      using d by (simp add: await_future_done)
    finally show ?thesis .
  qed
  have "agent_inv ?s4"
    using agent_inv_turn [OF inv3] by (simp only: t3)
  then show "idle ?s4"
    using i q assms(2) by (simp add: idle_def)
qed

lemma served_simps:
  "running (served s r w') = running s" "queue (served s r w') = queue s"
  "worker (served s r w') = worker s" "tasks (served s r w') = tasks s"
  "ntasks (served s r w') = ntasks s" "nfut (served s r w') = Suc (nfut s)"
  "world (served s r w') = w'" "futures (served s r w') (nfut s) = outcome r"
  by (simp_all add: served_def)

lemma cursor_execute_idle:
  assumes "idle s" and "running s" and "func (world s) = (r, w')"
  shows "AsyncCursor_private_execute (Suc (Suc n)) func s =
           Some (future_result (outcome r), served s r w')"
    and "idle (served s r w')"
proof -
  obtain s2 where s2: "submit func s = (nfut s, s2)"
    by (simp add: submit_def)
  have "await_future (Suc (Suc n)) (nfut s) (snd (submit func s)) = Some (served s r w')"
    unfolding served_def using assms by (rule await_submit_idle(1))
  then have "await_future (Suc (Suc n)) (nfut s) s2 = Some (served s r w')"
    by (simp only: s2 snd_conv)
  then show "AsyncCursor_private_execute (Suc (Suc n)) func s =
           Some (future_result (outcome r), served s r w')"
    by (simp add: AsyncCursor_private_execute_def s2 served_simps del: await_future.simps)
  show "idle (served s r w')"
    unfolding served_def using assms by (rule await_submit_idle(2))
qed

lemma aenter_simps:
  "running (AsyncConnection_aenter s)" "world (AsyncConnection_aenter s) = world s"
  "nfut (AsyncConnection_aenter s) = nfut s" "futures (AsyncConnection_aenter s) = futures s"
  "queue (AsyncConnection_aenter s) = queue s"
  by (simp_all add: AsyncConnection_aenter_def start_def)

lemma idle_aenter: "idle s \<Longrightarrow> idle (AsyncConnection_aenter s)"
  by (simp add: AsyncConnection_aenter_def idle_start)

lemma connection_execute_cursor:
  "AsyncConnection_private_execute n func s =
     AsyncCursor_private_execute n func (AsyncConnection_aenter s)"
  by (simp add: AsyncConnection_private_execute_def AsyncCursor_private_execute_def
      AsyncConnection_aenter_def)

lemma connection_execute_idle:
  assumes "idle s" and "func (world s) = (r, w')"
  shows "AsyncConnection_private_execute (Suc (Suc n)) func s =
           Some (future_result (outcome r), served (AsyncConnection_aenter s) r w')"
    and "idle (served (AsyncConnection_aenter s) r w')"
  using assms
  by (simp_all add: connection_execute_cursor cursor_execute_idle idle_aenter aenter_simps)

lemma stop_idle:
  assumes "idle s" and "running s" and "worker s = Some i"
  shows "stop (Suc n) s = Some (Inr (), s\<lparr> running := False, tasks := (tasks s)(i := Finished) \<rparr>)"
    and "idle (s\<lparr> running := False, tasks := (tasks s)(i := Finished) \<rparr>)"
proof -
  have t: "tasks s i = AtTop" and q: "queue s = []" and inv: "agent_inv s"
    using assms by (auto simp: idle_def)
  let ?s1 = "stop_flag s"
  let ?s2 = "s\<lparr> running := False, tasks := (tasks s)(i := Finished) \<rparr>"
  have inv1: "agent_inv ?s1"
    using inv by (rule agent_inv_stop_flag)
  have t1: "turn ?s1 = ?s2"
    using inv1 t q assms(3)
    by (subst turn_single [where i = i]) (simp_all add: stop_flag_def resume_def run_def)
  have "tasks ?s1 i = AtTop"
    using t by (simp add: stop_flag_def)
  then have "await_task (Suc n) i ?s1 = await_task n i ?s2"
    by (simp add: t1)
  also have "\<dots> = Some (Inr (), ?s2)"
    by (cases n) simp_all
  finally show "stop (Suc n) s = Some (Inr (), ?s2)"
    using assms(2,3) by (simp add: stop_def)
  have inv2: "agent_inv ?s2"
    using agent_inv_turn [OF inv1] by (simp only: t1)
  have "\<not> alive (tasks ?s2 j)" for j
    using agent_inv_aliveD [OF inv, of j] assms(3) by (cases "j = i") auto
  then show "idle ?s2"
    using inv2 q by (simp add: idle_def)
qed

lemma await_future_dead:
  "\<forall>i. \<not> alive (tasks s i) \<Longrightarrow> \<not> is_done (futures s fut) \<Longrightarrow> await_future n fut s = None"
  by (induction n) (simp_all add: turn_dead)

lemma cursor_execute_dead:
  "\<forall>i. \<not> alive (tasks s i) \<Longrightarrow> AsyncCursor_private_execute n func s = None"
  by (simp add: AsyncCursor_private_execute_def submit_def await_future_dead)

section \<open>Leaving the loop\<close>





section \<open>Draining\<close>




section \<open>Stopping\<close>

lemma idle_init: "idle (Agent_init w)"
  by (simp add: idle_def agent_inv_init) (simp add: Agent_init_def)



lemma agent_inv_two_queued: "agent_inv two_queued"
  unfolding two_queued_def
  by (intro agent_inv_one_worker agent_inv_init) (simp add: no_task_alive_def Agent_init_def)


section \<open>Calls are served in turn\<close>

lemma pending_not_done:
  assumes "agent_inv s" and "fut \<in> set (pending_order s)"
  shows "\<not> is_done (futures s fut)"
proof -
  from assms(1) obtain k where k: "pending_order s = [k..<nfut s]"
    "\<forall>fut<nfut s. is_done (futures s fut) = (fut < k)"
    unfolding agent_inv_iff by blast
  then have "k \<le> fut" "fut < nfut s"
    using assms(2) by simp_all
  then show ?thesis
    using k(2) by simp
qed

lemma ahead_submit: "ahead (snd (submit func s)) = ahead s @ [func]"
  by (simp add: ahead_def submit_def split: option.splits)

lemma turn_serves:
  assumes inv: "agent_inv s" and w: "worker s = Some i" and a: "alive (tasks s i)"
    and q: "queue s = (fut, func) # rest"
  shows "queue (turn s) = rest" and "tasks (turn s) i = InThread fut func"
    and "world (turn s) = fold effect (callables (tasks s i)) (world s)"
proof -
  have t: "turn s = resume i s"
    using inv w a by (rule turn_single)
  have r: "run i s' = s'\<lparr> queue := rest, tasks := (tasks s')(i := InThread fut func) \<rparr>"
    if "queue s' = (fut, func) # rest" for s' :: "('a, 'b, 'c) state"
    using that by (simp add: run_def)
  have "queue (turn s) = rest \<and> tasks (turn s) i = InThread fut func \<and>
      world (turn s) = fold effect (callables (tasks s i)) (world s)"
  proof (cases "tasks s i")
    case AtTop
    then show ?thesis
      using r [OF q] by (simp add: t resume_def)
  next
    case (InThread fut' func')
    obtain x w' where f: "func' (world s) = (x, w')"
      by (cases "func' (world s)")
    let ?s = "s\<lparr> world := w', futures := (futures s)(fut' := outcome x) \<rparr>"
    have "resume i s = run i ?s"
      using InThread f agent_inv_completed(1) [OF inv w InThread] by (simp add: resume_def)
    moreover have "queue ?s = (fut, func) # rest"
      using q by simp
    ultimately show ?thesis
      using r [of ?s] InThread f by (simp add: t effect_def)
  next
    case Finished
    then show ?thesis using a by simp
  next
    case Failed
    then show ?thesis using a by simp
  qed
  then show "queue (turn s) = rest" and "tasks (turn s) i = InThread fut func"
    and "world (turn s) = fold effect (callables (tasks s i)) (world s)"
    by simp_all
qed

lemma turn_completes:
  assumes inv: "agent_inv s" and w: "worker s = Some i" and t: "tasks s i = InThread fut func"
    and q: "queue s = []" and r: "running s"
  shows "futures (turn s) fut = outcome (fst (func (world s)))"
    and "world (turn s) = snd (func (world s))"
    and "idle (turn s)"
proof -
  have ts: "turn s = resume i s"
    using inv w t by (intro turn_single) simp_all
  obtain x w' where f: "func (world s) = (x, w')"
    by (cases "func (world s)")
  have e: "resume i s =
      s\<lparr> world := w', futures := (futures s)(fut := outcome x), tasks := (tasks s)(i := AtTop) \<rparr>"
    using t f q r agent_inv_completed(1) [OF inv w t] by (simp add: resume_def run_def)
  show "futures (turn s) fut = outcome (fst (func (world s)))"
    and "world (turn s) = snd (func (world s))"
    by (simp_all add: ts e f)
  have "agent_inv (turn s)"
    using inv by (rule agent_inv_turn)
  then show "idle (turn s)"
    using q r w by (simp add: idle_def) (simp add: ts e)
qed

lemma await_future_serves:
  assumes "agent_inv s" and "running s" and "queue s = pre @ [(fut, func)]"
    and "length pre + 2 \<le> n"
  shows "\<exists>s'. await_future n fut s = Some s' \<and> idle s' \<and> running s' \<and>
           futures s' fut = outcome (fst (func (fold effect (butlast (ahead s)) (world s)))) \<and>
           world s' = world_after s"
  using assms
proof (induction pre arbitrary: s n)
  case Nil
  from Nil.prems(1,2) obtain i where i: "worker s = Some i" "alive (tasks s i)"
    by (auto simp: agent_inv_def)
  obtain m where n: "n = Suc (Suc m)"
    using Nil.prems(4) by (cases n; cases "n - 1") auto
  have q: "queue s = (fut, func) # []"
    using Nil.prems(3) by simp
  note ts = turn_serves [OF Nil.prems(1) i q]
  have inv1: "agent_inv (turn s)"
    using Nil.prems(1) by (rule agent_inv_turn)
  have w1: "worker (turn s) = Some i" and r1: "running (turn s)"
    using i(1) Nil.prems(2) by (simp_all add: turn_frame)
  note tc = turn_completes [OF inv1 w1 ts(2,1) r1]
  have nd: "\<not> is_done (futures s fut)"
    using q by (intro pending_not_done [OF Nil.prems(1)]) (simp add: pending_order_def)
  have nd1: "\<not> is_done (futures (turn s) fut)"
    using w1 ts(2)
    by (intro pending_not_done [OF inv1]) (simp add: pending_order_def inflight_def)
  have d2: "is_done (futures (turn (turn s)) fut)"
    unfolding tc(1) by (cases "fst (func (world (turn s)))") simp_all
  have aw: "await_future n fut s = Some (turn (turn s))"
    using nd nd1 d2 by (simp add: n await_future_done)
  have ah: "ahead s = callables (tasks s i) @ [func]"
    using i(1) q by (simp add: ahead_def)
  have "world (turn (turn s)) = world_after s"
    by (simp add: tc(2) ts(3) world_after_def ah effect_def)
  moreover have "futures (turn (turn s)) fut =
      outcome (fst (func (fold effect (butlast (ahead s)) (world s))))"
    by (simp add: tc(1) ts(3) ah)
  moreover have "running (turn (turn s))"
    using r1 by (simp add: turn_frame)
  ultimately show ?case
    using aw tc(3) by simp
next
  case (Cons p pre)
  from Cons.prems(1,2) obtain i where i: "worker s = Some i" "alive (tasks s i)"
    by (auto simp: agent_inv_def)
  obtain m where n: "n = Suc m"
    using Cons.prems(4) by (cases n) auto
  obtain fut' func' where p: "p = (fut', func')"
    by (cases p)
  have q: "queue s = (fut', func') # (pre @ [(fut, func)])"
    using Cons.prems(3) p by simp
  note ts = turn_serves [OF Cons.prems(1) i q]
  have inv1: "agent_inv (turn s)"
    using Cons.prems(1) by (rule agent_inv_turn)
  have w1: "worker (turn s) = Some i" and r1: "running (turn s)"
    using i(1) Cons.prems(2) by (simp_all add: turn_frame)
  have "length pre + 2 \<le> m"
    using Cons.prems(4) n by simp
  from Cons.IH [OF inv1 r1 ts(1) this] obtain s' where
    s': "await_future m fut (turn s) = Some s'" "idle s'" "running s'"
      "futures s' fut =
         outcome (fst (func (fold effect (butlast (ahead (turn s))) (world (turn s)))))"
      "world s' = world_after (turn s)"
    by blast
  have nd: "\<not> is_done (futures s fut)"
    using q by (intro pending_not_done [OF Cons.prems(1)]) (simp add: pending_order_def)
  have aw: "await_future n fut s = Some s'"
    using nd s'(1) by (simp add: n)
  have ah1: "ahead (turn s) = func' # map snd pre @ [func]"
    using w1 ts(1,2) by (simp add: ahead_def)
  have "ahead s = callables (tasks s i) @ func' # map snd pre @ [func]"
    using i(1) q by (simp add: ahead_def)
  then have ah: "ahead s = callables (tasks s i) @ ahead (turn s)"
    by (simp only: ah1)
  have "world_after (turn s) = world_after s"
    by (simp add: world_after_def ah ts(3))
  moreover have "fold effect (butlast (ahead (turn s))) (world (turn s)) =
      fold effect (butlast (ahead s)) (world s)"
    by (simp add: ah ah1 butlast_append ts(3))
  ultimately show ?case
    using aw s' by simp
qed

lemma cursor_execute_serves:
  assumes "agent_inv s" and "running s" and "length (queue s) + 2 \<le> n"
  shows "\<exists>s'. AsyncCursor_private_execute n func s =
              Some (future_result (outcome (fst (func (world_after s)))), s') \<and>
           idle s' \<and> running s' \<and>
           futures s' (nfut s) = outcome (fst (func (world_after s))) \<and>
           world s' = snd (func (world_after s))"
proof -
  obtain s2 where s2: "submit func s = (nfut s, s2)"
    by (simp add: submit_def)
  then have e: "s2 = snd (submit func s)"
    by simp
  have "agent_inv s2" "running s2" "queue s2 = queue s @ [(nfut s, func)]" "world s2 = world s"
    using assms(1,2) unfolding e by (simp_all add: agent_inv_submit) (simp_all add: submit_def)
  from await_future_serves [OF this(1-3) assms(3)] obtain s' where
    s': "await_future n (nfut s) s2 = Some s'" "idle s'" "running s'"
      "futures s' (nfut s) =
         outcome (fst (func (fold effect (butlast (ahead s2)) (world s2))))"
      "world s' = world_after s2"
    by blast
  have a: "ahead s2 = ahead s @ [func]"
    unfolding e by (rule ahead_submit)
  have "fold effect (butlast (ahead s2)) (world s2) = world_after s"
    using \<open>world s2 = world s\<close> by (simp add: a world_after_def)
  moreover have "world_after s2 = snd (func (world_after s))"
    using \<open>world s2 = world s\<close> by (simp add: a world_after_def effect_def)
  moreover have "AsyncCursor_private_execute n func s =
      Some (future_result (futures s' (nfut s)), s')"
    using s2 s'(1) by (simp add: AsyncCursor_private_execute_def)
  ultimately show ?thesis
    using s' by simp
qed

lemma orderly_aenter:
  assumes "orderly s"
  shows "agent_inv (AsyncConnection_aenter s)" and "world_after (AsyncConnection_aenter s) = world_after s"
proof -
  have inv: "agent_inv s" and c: "running s \<or> (\<forall>i. \<not> alive (tasks s i))"
    using assms by (auto simp: orderly_def no_task_alive_iff)
  show "agent_inv (AsyncConnection_aenter s)"
    using agent_inv_start [OF inv c] inv by (simp add: AsyncConnection_aenter_def)
  show "world_after (AsyncConnection_aenter s) = world_after s"
  proof (cases "running s")
    case True
    then show ?thesis by (simp add: AsyncConnection_aenter_def)
  next
    case False
    then have na: "\<not> alive (tasks s i)" for i
      using c by simp
    have "callables (tasks s i) = []" for i
      using na [of i] by (cases "tasks s i") simp_all
    then show ?thesis
      using False
      by (simp add: AsyncConnection_aenter_def start_def world_after_def ahead_def
          split: option.splits)
  qed
qed

lemma connection_execute_serves:
  assumes "orderly s" and "length (queue s) + 2 \<le> n"
  shows "\<exists>s'. AsyncConnection_private_execute n func s =
              Some (future_result (outcome (fst (func (world_after s)))), s') \<and>
           idle s' \<and> running s' \<and>
           futures s' (nfut s) = outcome (fst (func (world_after s))) \<and>
           world s' = snd (func (world_after s))"
  using cursor_execute_serves [of "AsyncConnection_aenter s" n func] assms
  by (simp add: connection_execute_cursor orderly_aenter aenter_simps)

lemma idle_world_after: "idle s \<Longrightarrow> world_after s = world s"
proof -
  assume i: "idle s"
  have "callables (tasks s j) = []" if "worker s = Some j" for j
  proof (cases "running s")
    case True
    then show ?thesis using i that by (auto simp: idle_def)
  next
    case False
    then have "\<not> alive (tasks s j)"
      using i by (simp add: idle_def)
    then show ?thesis by (cases "tasks s j") simp_all
  qed
  then show ?thesis
    using i by (simp add: world_after_def ahead_def idle_def split: option.splits)
qed


section \<open>A callable that raises\<close>


lemma idle_running_worker: "idle s \<Longrightarrow> running s \<Longrightarrow> \<exists>i. worker s = Some i \<and> tasks s i = AtTop"
  by (simp add: idle_def)


lemma idle_queue: "idle s \<Longrightarrow> queue s = []"
  by (simp add: idle_def)




lemma two_queued_simps:
  "running two_queued" "length (queue two_queued) = 2" "world_after two_queued = 1"
  "nfut two_queued = 2"
  by (simp_all add: two_queued_def run_events_def start_def submit_def Agent_init_def
      world_after_def ahead_def effect_def returning_def raising_def)

lemma orderly_two_queued: "orderly two_queued"
  by (simp add: orderly_def agent_inv_two_queued two_queued_simps)


section \<open>Closing a session\<close>

lemma close_raises:
  assumes "orderly s" and "length (queue s) + 2 \<le> n"
    and "handle ''close'' [] (world_after s) = (Inl e, w')"
  shows "\<exists>s1. AsyncConnection_close n handle s = Some (Inl (Raised e), s1) \<and>
              AsyncConnection_aexit n handle s = Some (Inl (Raised e), s1) \<and>
              idle s1 \<and> running s1 \<and> world s1 = w'"
proof -
  from connection_execute_serves [OF assms(1,2), of "handle ''close'' []"] assms(3)
  obtain s1 where s1: "AsyncConnection_private_execute n (handle ''close'' []) s =
      Some (Inl (Raised e), s1)" "idle s1" "running s1" "world s1 = w'"
    by auto
  have c: "AsyncConnection_close n handle s = Some (Inl (Raised e), s1)"
    using s1(1) by (simp add: AsyncConnection_close_def)
  then have "AsyncConnection_aexit n handle s = Some (Inl (Raised e), s1)"
    by (simp add: AsyncConnection_aexit_def)
  then show ?thesis
    using c s1 by blast
qed

lemma close_returns:
  assumes "orderly s" and "length (queue s) + 2 \<le> n"
    and "handle ''close'' [] (world_after s) = (Inr v, w')"
  shows "\<exists>s2. AsyncConnection_close n handle s = Some (Inr (), s2) \<and>
              AsyncConnection_aexit n handle s = Some (Inr (), s2) \<and>
              idle s2 \<and> \<not> running s2 \<and> world s2 = w'"
proof -
  from connection_execute_serves [OF assms(1,2), of "handle ''close'' []"] assms(3)
  obtain s1 where s1: "AsyncConnection_private_execute n (handle ''close'' []) s =
      Some (Inr v, s1)" "idle s1" "running s1" "world s1 = w'"
    by auto
  obtain i where i: "worker s1 = Some i"
    using idle_running_worker [OF s1(2,3)] by blast
  obtain k where k: "n = Suc k"
    using assms(2) by (cases n) auto
  let ?s2 = "s1\<lparr> running := False, tasks := (tasks s1)(i := Finished) \<rparr>"
  have st: "stop n s1 = Some (Inr (), ?s2)" and i2: "idle ?s2"
    using stop_idle(1) [OF s1(2,3) i, of k] stop_idle(2) [OF s1(2,3) i] by (simp_all add: k)
  have c: "AsyncConnection_close n handle s = Some (Inr (), ?s2)"
    using s1(1,3) st by (simp add: AsyncConnection_close_def)
  then have "AsyncConnection_aexit n handle s = Some (Inr (), ?s2)"
    by (simp add: AsyncConnection_aexit_def)
  moreover have "\<not> running ?s2" "world ?s2 = w'"
    using s1(4) by simp_all
  ultimately show ?thesis
    using c i2 by blast
qed

text \<open>
  Claim C10.  If the \<^verbatim>\<open>close\<close> of the underlying handle raises \<open>e\<close> (on the handles as the
  callables queued ahead leave them), then \<^verbatim>\<open>AsyncConnection.close\<close> raises \<open>e\<close> before it
  reaches \<^verbatim>\<open>stop\<close>, and so does \<^verbatim>\<open>__aexit__\<close>; both leave the agent running with its
  worker alive.
\<close>

theorem close_failure_leaves_agent_running:
  assumes "orderly s" and "length (queue s) + 2 \<le> n"
    and "handle ''close'' [] (world_after s) = (Inl e, w')"
  shows "\<exists>s1. AsyncConnection_close n handle s = Some (Inl (Raised e), s1) \<and>
              AsyncConnection_aexit n handle s = Some (Inl (Raised e), s1) \<and>
              running s1 \<and> (\<exists>i. worker s1 = Some i \<and> alive (tasks s1 i))"
proof -
  from close_raises [where handle = handle, OF assms] obtain s1 where
    s1: "AsyncConnection_close n handle s = Some (Inl (Raised e), s1)"
      "AsyncConnection_aexit n handle s = Some (Inl (Raised e), s1)" "idle s1" "running s1"
    by blast
  from idle_running_worker [OF s1(3,4)] obtain i where "worker s1 = Some i" "tasks s1 i = AtTop"
    by blast
  then have "\<exists>i. worker s1 = Some i \<and> alive (tasks s1 i)"
    by simp
  then show ?thesis
    using s1 by blast
qed

lemma broken_handle_close: "broken_handle ''close'' [] w = (Inl ''boom'', w)"
  by (simp add: broken_handle_def raising_def)

theorem close_failure_leaves_agent_running_witness:
  "orderly two_queued \<and> length (queue two_queued) + 2 \<le> 4 \<and>
   broken_handle ''close'' [] (world_after two_queued) = (Inl ''boom'', 1) \<and>
   (\<exists>s1. AsyncConnection_close 4 broken_handle two_queued = Some (Inl (Raised ''boom''), s1) \<and>
         AsyncConnection_aexit 4 broken_handle two_queued = Some (Inl (Raised ''boom''), s1) \<and>
         running s1 \<and> (\<exists>i. worker s1 = Some i \<and> alive (tasks s1 i)))"
proof -
  have h: "length (queue two_queued) + 2 \<le> 4"
    "broken_handle ''close'' [] (world_after two_queued) = (Inl ''boom'', 1)"
    by (simp_all add: two_queued_simps broken_handle_close)
  from close_failure_leaves_agent_running [where handle = broken_handle,
      OF orderly_two_queued h] orderly_two_queued h
  show ?thesis
    by (-) ((rule conjI, assumption)+, assumption)
qed

section \<open>A cursor on an agent without a worker\<close>

text \<open>
  Claim C4, on an agent that was never started.  A forwarded method of the session starts the
  agent, and the call returns with the agent running.  The same method of a cursor submits
  without starting the agent: there is no task to serve the queue, and the call has not
  returned after any number of turns of the event loop.
\<close>

theorem cursor_without_worker_never_returns:
  fixes handle :: "string \<Rightarrow> 'x list \<Rightarrow> ('w, 'e, 'v) callable"
  shows "(\<exists>r s'. make_delegate_method (AsyncConnection_private_execute (Suc (Suc n))) handle
              attr_name args (Agent_init w) = Some (r, s') \<and> running s') \<and>
   make_delegate_method (AsyncCursor_private_execute m) handle attr_name args (Agent_init w) =
     None"
proof -
  obtain r w' where "handle attr_name args w = (r, w')"
    by (cases "handle attr_name args w")
  then have f: "handle attr_name args (world (Agent_init w :: ('w, 'e, 'v) state)) = (r, w')"
    by (simp add: Agent_init_def)
  have "running (served (AsyncConnection_aenter (Agent_init w :: ('w, 'e, 'v) state)) r w')"
    by (simp add: served_simps aenter_simps)
  then have "\<exists>r s'. make_delegate_method (AsyncConnection_private_execute (Suc (Suc n))) handle
              attr_name args (Agent_init w) = Some (r, s') \<and> running s'"
    using connection_execute_idle(1) [where func = "handle attr_name args", OF idle_init f]
    unfolding make_delegate_method_def by blast
  moreover have "make_delegate_method (AsyncCursor_private_execute m) handle attr_name args
      (Agent_init w) = None"
    unfolding make_delegate_method_def
    by (rule cursor_execute_dead) (simp add: Agent_init_def)
  ultimately show ?thesis ..
qed

section \<open>Scoped use\<close>

lemma await_future_frame:
  "await_future n fut s = Some s' \<Longrightarrow>
   running s' = running s \<and> worker s' = worker s \<and> ntasks s' = ntasks s \<and> nfut s' = nfut s"
  by (induction n arbitrary: s) (auto simp: turn_frame split: if_splits)

lemma cursor_execute_frame:
  assumes "AsyncCursor_private_execute n func s = Some (r, s')"
  shows "running s' = running s \<and> worker s' = worker s \<and> ntasks s' = ntasks s"
proof -
  obtain s2 where s2: "submit func s = (nfut s, s2)"
    by (simp add: submit_def)
  then have "await_future n (nfut s) s2 = Some s'"
    using assms by (simp add: AsyncCursor_private_execute_def split: option.splits)
  from await_future_frame [OF this] show ?thesis
    using s2 by (auto simp: submit_def)
qed




lemma idle_entered: "idle entered"
  by (simp add: entered_def idle_aenter idle_init)

lemma entered_simps:
  "running entered" "world entered = 0" "queue entered = []" "world_after entered = 0"
  using idle_entered
  by (simp_all add: entered_def aenter_simps idle_queue idle_world_after)
    (simp_all add: Agent_init_def)

lemma sound_handle_close: "sound_handle ''close'' [] w = (Inr w, Suc w)"
  by (simp add: sound_handle_def returning_def)

lemma left_by_body_simps:
  "agent_inv left_by_body" "orderly left_by_body" "running left_by_body"
  "length (queue left_by_body) = 1" "world_after left_by_body = 1"
proof -
  show inv: "agent_inv left_by_body"
    unfolding left_by_body_def using idle_entered by (intro agent_inv_submit) (simp add: idle_def)
  show r: "running left_by_body"
    using entered_simps(1) by (simp add: left_by_body_def submit_def)
  show "orderly left_by_body"
    using inv r by (simp add: orderly_def)
  show "length (queue left_by_body) = 1"
    using entered_simps(3) by (simp add: left_by_body_def submit_def)
  have "ahead left_by_body = ahead entered @ [returning]"
    unfolding left_by_body_def by (rule ahead_submit)
  moreover have "world left_by_body = world entered"
    by (simp add: left_by_body_def submit_def)
  ultimately show "world_after left_by_body = 1"
    using entered_simps(4) by (simp add: world_after_def effect_def returning_def)
qed


section \<open>After close\<close>

lemma close_then_execute:
  assumes o: "orderly s" and n: "length (queue s) + 2 \<le> n" and m: "2 \<le> m"
    and h: "handle ''close'' [] (world_after s) = (Inr v, w')" and f: "func w' = (r, w'')"
  shows "\<exists>s1 s2. AsyncConnection_close n handle s = Some (Inr (), s1) \<and>
           \<not> running s1 \<and> queue s1 = [] \<and> (\<forall>i. \<not> alive (tasks s1 i)) \<and>
           AsyncConnection_private_execute m func s1 =
             Some (future_result (outcome r), s2) \<and>
           running s2 \<and> ntasks s2 = Suc (ntasks s1) \<and> worker s2 = Some (ntasks s1) \<and>
           tasks s2 (ntasks s1) = AtTop"
proof -
  from close_returns [where handle = handle, OF o n h] obtain s1 where
    s1: "AsyncConnection_close n handle s = Some (Inr (), s1)" "idle s1"
      "\<not> running s1" "world s1 = w'"
    by blast
  obtain k where k: "m = Suc (Suc k)"
    using m by (cases m; cases "m - 1") auto
  let ?s2 = "served (AsyncConnection_aenter s1) r w''"
  have "func (world s1) = (r, w'')"
    using f s1(4) by simp
  from connection_execute_idle(1) [where func = func, OF s1(2) this]
  have e: "AsyncConnection_private_execute m func s1 =
      Some (future_result (outcome r), ?s2)"
    unfolding k .
  have "running ?s2" "ntasks ?s2 = Suc (ntasks s1)" "worker ?s2 = Some (ntasks s1)"
    "tasks ?s2 (ntasks s1) = AtTop"
    using s1(3) by (simp_all add: served_simps AsyncConnection_aenter_def start_def)
  moreover have "queue s1 = []" "\<forall>i. \<not> alive (tasks s1 i)"
    using s1(2,3) by (simp_all add: idle_def)
  ultimately show ?thesis
    using s1(1,3) e by blast
qed

text \<open>
  Claim C7, as amended.  When \<^verbatim>\<open>close\<close> of a session has returned, the agent is stopped:
  \<open>running\<close> is false, the queue is empty and no task is alive.  The next operation of the
  session that goes through \<^verbatim>\<open>_execute\<close> starts the agent again: \<open>running\<close> is true and
  \<open>worker\<close> is a task created by that call.  An operation of a cursor that returns has changed
  neither \<open>running\<close> nor \<open>worker\<close> nor the number of tasks.
\<close>

theorem closed_agent_restarts:
  "(orderly s \<and> length (queue s) + 2 \<le> n \<and> 2 \<le> m \<and>
    handle ''close'' [] (world_after s) = (Inr v, w') \<and> func w' = (r, w'') \<longrightarrow>
      (\<exists>s1 s2. AsyncConnection_close n handle s = Some (Inr (), s1) \<and>
         \<not> running s1 \<and> queue s1 = [] \<and> (\<forall>i. \<not> alive (tasks s1 i)) \<and>
         AsyncConnection_private_execute m func s1 = Some (future_result (outcome r), s2) \<and>
         running s2 \<and> ntasks s2 = Suc (ntasks s1) \<and> worker s2 = Some (ntasks s1) \<and>
         tasks s2 (ntasks s1) = AtTop)) \<and>
   (AsyncCursor_private_execute k cursor_func c = Some (r', c') \<longrightarrow>
      running c' = running c \<and> worker c' = worker c \<and> ntasks c' = ntasks c)"
  using close_then_execute [of s n m handle v w' func r w'']
    cursor_execute_frame [of k cursor_func c r' c']
  by blast

text \<open>
  Claim C7 as stated fails: after \<^verbatim>\<open>close\<close> has returned (\<open>running\<close> false, one task created
  so far), one more operation on the same session sets \<open>running\<close> to true and creates a second
  task.
\<close>

theorem closed_agent_restarts_counterexample:
  "map_option (running \<circ> snd) (AsyncConnection_close 2 sound_handle entered) = Some False \<and>
   map_option (running \<circ> snd)
     (and_then (AsyncConnection_close 2 sound_handle entered)
        (AsyncConnection_private_execute 2 returning)) = Some True \<and>
   map_option (ntasks \<circ> snd) (AsyncConnection_close 2 sound_handle entered) = Some 1 \<and>
   map_option (ntasks \<circ> snd)
     (and_then (AsyncConnection_close 2 sound_handle entered)
        (AsyncConnection_private_execute 2 returning)) = Some 2"
  by (simp add: and_then_def AsyncConnection_close_def AsyncConnection_private_execute_def
      submit_def turn_def resume_def run_def stop_def stop_flag_def entered_def
      AsyncConnection_aenter_def start_def Agent_init_def sound_handle_def returning_def
      numeral_2_eq_2)

theorem closed_agent_restarts_witness:
  "orderly left_by_body \<and> length (queue left_by_body) + 2 \<le> 3 \<and> (2 :: nat) \<le> 2 \<and>
   sound_handle ''close'' [] (world_after left_by_body) = (Inr 1, 2) \<and>
   returning 2 = (Inr 2, 3) \<and>
   (\<exists>s1 s2. AsyncConnection_close 3 sound_handle left_by_body = Some (Inr (), s1) \<and>
      \<not> running s1 \<and> queue s1 = [] \<and> (\<forall>i. \<not> alive (tasks s1 i)) \<and>
      AsyncConnection_private_execute 2 returning s1 = Some (Inr 2, s2) \<and>
      running s2 \<and> ntasks s2 = Suc (ntasks s1) \<and> worker s2 = Some (ntasks s1) \<and>
      tasks s2 (ntasks s1) = AtTop) \<and>
   AsyncCursor_private_execute 2 returning entered = Some (Inr 0, served entered (Inr 0) 1) \<and>
   running (served entered (Inr 0) 1) = running entered \<and>
   worker (served entered (Inr 0) 1) = worker entered \<and>
   ntasks (served entered (Inr 0) 1) = ntasks entered"
proof -
  have q: "length (queue left_by_body) + 2 \<le> 3" "(2 :: nat) \<le> 2"
    by (simp_all add: left_by_body_simps)
  have h: "sound_handle ''close'' [] (world_after left_by_body) = (Inr 1, 2)"
    by (simp add: sound_handle_close left_by_body_simps)
  have f: "returning 2 = (Inr 2, 3)"
    by (simp add: returning_def)
  have "returning (world entered) = (Inr 0, 1)"
    by (simp add: returning_def entered_simps)
  from cursor_execute_idle(1) [where func = returning and n = 0, OF idle_entered
      entered_simps(1) this]
  have c: "AsyncCursor_private_execute 2 returning entered =
      Some (Inr 0, served entered (Inr 0) 1)"
    by (simp add: numeral_2_eq_2)
  note t = closed_agent_restarts [where s = left_by_body and handle = sound_handle and v = 1 and
      w' = 2 and func = returning and r = "Inr 2" and w'' = 3 and n = 3 and m = 2 and k = 2 and
      cursor_func = returning and c = entered and r' = "Inr 0" and
      c' = "served entered (Inr 0) 1"]
  from t left_by_body_simps(2) q h f c show ?thesis
    by simp
qed

section \<open>The row count\<close>

lemma delegate_to_agent_other:
  "attr_name \<notin> set attrs \<Longrightarrow> delegate_to_agent attrs cls attr_name = cls attr_name"
  unfolding delegate_to_agent_def by (induction attrs arbitrary: cls) simp_all

text \<open>
  Claim C9.  The attribute \<^verbatim>\<open>rowcount\<close> of \<^verbatim>\<open>AsyncConnection\<close> is the proxy property, not a
  delegate.  Reading it gives the attribute of the underlying handle in its present state and
  leaves the whole state as it is: the flag, the queue, the worker, the tasks and the futures
  of the agent, and the handles.
\<close>

theorem rowcount_bypasses_agent:
  "AsyncConnection_cls ''rowcount'' = Some ProxyProperty \<and>
   fst (make_proxy_property attribute ''rowcount'' s) = attribute ''rowcount'' (world s) \<and>
   snd (make_proxy_property attribute ''rowcount'' s) = s"
  by (simp add: make_proxy_property_def AsyncConnection_cls_def delegate_to_agent_other
      proxy_property_directly_def)

section \<open>Iterating over a cursor\<close>

declare batches.simps [simp del]

lemma batches_0: "batches 0 = [0]"
  by (simp add: batches.simps)

lemma batches_pos: "0 < m \<Longrightarrow> batches m = min 100 m # batches (m - 100)"
  by (subst batches.simps) simp

lemma fetchmany_100:
  "cursor_handle ''fetchmany'' [100] \<lparr> remaining = rem, fetched = log \<rparr> =
     (Inr (take 100 rem),
      \<lparr> remaining = drop 100 rem, fetched = log @ [min 100 (length rem)] \<rparr>)"
  by (simp add: cursor_handle_def min.commute)

lemma fetch_batch_serves:
  assumes "agent_inv s" and "running s" and "length (queue s) + 2 \<le> n"
    and "world_after s = \<lparr> remaining = rem, fetched = log \<rparr>"
  shows "\<exists>s'. fetch_batch n cursor_handle s =
           Some (case take 100 rem of [] \<Rightarrow> (Inr None, Closed, s')
                 | row # rest \<Rightarrow> (Inr (Some row), Suspended rest, s')) \<and>
           idle s' \<and> running s' \<and>
           world s' = \<lparr> remaining = drop 100 rem, fetched = log @ [min 100 (length rem)] \<rparr>"
proof -
  let ?w = "\<lparr> remaining = drop 100 rem, fetched = log @ [min 100 (length rem)] \<rparr>"
  have f: "cursor_handle ''fetchmany'' [100] (world_after s) = (Inr (take 100 rem), ?w)"
    using assms(4) by (simp add: fetchmany_100)
  from cursor_execute_serves [OF assms(1-3), of "cursor_handle ''fetchmany'' [100]"] f
  obtain s' where s': "AsyncCursor_private_execute n (cursor_handle ''fetchmany'' [100]) s =
      Some (Inr (take 100 rem), s')" "idle s'" "running s'" "world s' = ?w"
    by auto
  have "fetch_batch n cursor_handle s =
      Some (case take 100 rem of [] \<Rightarrow> (Inr None, Closed, s')
            | row # rest \<Rightarrow> (Inr (Some row), Suspended rest, s'))"
    using s'(1) by (simp add: fetch_batch_def make_delegate_method_def split: list.splits)
  then show ?thesis
    using s'(2-4) by blast
qed

lemma async_for_collects:
  assumes "agent_inv s" and "running s" and "length (queue s) + 2 \<le> n"
    and "world_after s = \<lparr> remaining = rem, fetched = log \<rparr>"
    and "length buf + length rem < k"
  shows "\<exists>s'. async_for k n cursor_handle (Suspended buf) s = Some (Inr (buf @ rem), s') \<and>
           idle s' \<and> running s' \<and>
           world s' = \<lparr> remaining = [], fetched = log @ batches (length rem) \<rparr>"
  using assms
proof (induction k arbitrary: s rem log buf)
  case 0
  then show ?case by simp
next
  case (Suc k)
  show ?case
  proof (cases buf)
    case (Cons row rest)
    have "length rest + length rem < k"
      using Suc.prems(5) Cons by simp
    from Suc.IH [OF Suc.prems(1-4) this] obtain s' where
      "async_for k n cursor_handle (Suspended rest) s = Some (Inr (rest @ rem), s')"
      "idle s'" "running s'"
      "world s' = \<lparr> remaining = [], fetched = log @ batches (length rem) \<rparr>"
      by blast
    then show ?thesis
      using Cons by simp
  next
    case Nil
    from fetch_batch_serves [OF Suc.prems(1-4)] obtain s1 where
      s1: "fetch_batch n cursor_handle s =
             Some (case take 100 rem of [] \<Rightarrow> (Inr None, Closed, s1)
                   | row # rest \<Rightarrow> (Inr (Some row), Suspended rest, s1))"
        "idle s1" "running s1"
        "world s1 = \<lparr> remaining = drop 100 rem, fetched = log @ [min 100 (length rem)] \<rparr>"
      by blast
    show ?thesis
    proof (cases "take 100 rem")
      case Nil': Nil
      then have "rem = []"
        by (cases rem) simp_all
      then show ?thesis
        using Nil Nil' s1 by (simp add: batches_0)
    next
      case (Cons row rest)
      then have pos: "0 < length rem"
        by (cases rem) simp_all
      have "length (take 100 rem) = Suc (length rest)"
        using Cons by simp
      then have fuel: "length rest + length (drop 100 rem) < k"
        using Suc.prems(5) by simp
      have inv1: "agent_inv s1" and q1: "length (queue s1) + 2 \<le> n"
        and w1: "world_after s1 =
          \<lparr> remaining = drop 100 rem, fetched = log @ [min 100 (length rem)] \<rparr>"
        using s1(2,4) Suc.prems(3) by (simp_all add: idle_world_after idle_queue) (simp add: idle_def)
      from Suc.IH [OF inv1 s1(3) q1 w1 fuel] obtain s' where
        s': "async_for k n cursor_handle (Suspended rest) s1 =
               Some (Inr (rest @ drop 100 rem), s')"
          "idle s'" "running s'"
          "world s' = \<lparr> remaining = [],
             fetched = (log @ [min 100 (length rem)]) @ batches (length (drop 100 rem)) \<rparr>"
        by blast
      have "row # rest @ drop 100 rem = rem"
        using Cons append_take_drop_id [of 100 rem] by simp
      moreover have "(log @ [min 100 (length rem)]) @ batches (length (drop 100 rem)) =
          log @ batches (length rem)"
        using pos by (simp add: batches_pos)
      ultimately show ?thesis
        using Nil Cons s1(1) s' by simp
    qed
  qed
qed

lemma batches_250: "batches 250 = [100, 100, 50, 0]"
  by (simp add: batches_pos batches_0)

lemma async_for_created:
  "async_for k n handle Created s = async_for k n handle (Suspended []) s"
  by (cases k) simp_all

text \<open>
  Claim C5.  A cursor on a running agent, backed by a result set of 250 rows of which none is
  fetched yet.  A consumer that iterates to the end gets exactly the 250 rows in order; the
  handle has then served four calls of \<^verbatim>\<open>fetchmany\<close>, which returned batches of 100, 100
  and 50 rows and then the empty batch that ends the iteration, and no call after it.  The
  first request fetches one batch of 100 rows and leaves 150 in the result set.  A request
  made while rows of the current batch are left yields the next of them without a call to
  the agent, and a request to the ended generator fetches nothing.
\<close>

theorem batched_iteration:
  assumes "agent_inv s" and "running s" and "length (queue s) + 2 \<le> n"
    and "world_after s = \<lparr> remaining = rows, fetched = [] \<rparr>"
    and "length rows = 250" and "250 < k"
  shows "(\<exists>s'. async_for k n cursor_handle Created s = Some (Inr rows, s') \<and>
              world s' = \<lparr> remaining = [], fetched = [100, 100, 50, 0] \<rparr>) \<and>
         (\<exists>row rest s'. AsyncCursor_aiter n cursor_handle Created s =
              Some (Inr (Some row), Suspended rest, s') \<and>
              row # rest = take 100 rows \<and>
              world s' = \<lparr> remaining = drop 100 rows, fetched = [100] \<rparr>) \<and>
         AsyncCursor_aiter m cursor_handle (Suspended (r # rs)) t =
           Some (Inr (Some r), Suspended rs, t) \<and>
         AsyncCursor_aiter m cursor_handle Closed t = Some (Inr None, Closed, t)"
proof -
  have "length [] + length rows < k"
    using assms(5,6) by simp
  from async_for_collects [OF assms(1-4) this]
  have 1: "\<exists>s'. async_for k n cursor_handle Created s = Some (Inr rows, s') \<and>
      world s' = \<lparr> remaining = [], fetched = [100, 100, 50, 0] \<rparr>"
    using assms(5) by (auto simp: async_for_created batches_250)
  from fetch_batch_serves [OF assms(1-4)] obtain s' where
    s': "fetch_batch n cursor_handle s =
           Some (case take 100 rows of [] \<Rightarrow> (Inr None, Closed, s')
                 | row # rest \<Rightarrow> (Inr (Some row), Suspended rest, s'))"
      "world s' = \<lparr> remaining = drop 100 rows, fetched = [] @ [min 100 (length rows)] \<rparr>"
    by blast
  obtain row rest where rr: "take 100 rows = row # rest"
    using assms(5) by (cases "take 100 rows") auto
  have 2: "\<exists>row rest s'. AsyncCursor_aiter n cursor_handle Created s =
      Some (Inr (Some row), Suspended rest, s') \<and> row # rest = take 100 rows \<and>
      world s' = \<lparr> remaining = drop 100 rows, fetched = [100] \<rparr>"
    using s' rr assms(5) by simp
  show ?thesis
    using 1 2 by simp
qed

lemma idle_cursor_ready: "idle cursor_ready"
  unfolding cursor_ready_def by (intro idle_start idle_init)

theorem batched_iteration_witness:
  "agent_inv cursor_ready \<and> running cursor_ready \<and> length (queue cursor_ready) + 2 \<le> 2 \<and>
   world_after cursor_ready = \<lparr> remaining = [0..<250], fetched = [] \<rparr> \<and>
   length [0..<250] = 250 \<and> (250 :: nat) < 251 \<and>
   (\<exists>s'. async_for 251 2 cursor_handle Created cursor_ready = Some (Inr [0..<250], s') \<and>
         world s' = \<lparr> remaining = [], fetched = [100, 100, 50, 0] \<rparr>) \<and>
   (\<exists>row rest s'. AsyncCursor_aiter 2 cursor_handle Created cursor_ready =
         Some (Inr (Some row), Suspended rest, s') \<and>
         row # rest = take 100 [0..<250] \<and>
         world s' = \<lparr> remaining = drop 100 [0..<250], fetched = [100] \<rparr>) \<and>
   AsyncCursor_aiter 0 cursor_handle (Suspended [7, 8]) cursor_ready =
     Some (Inr (Some 7), Suspended [8], cursor_ready) \<and>
   AsyncCursor_aiter 0 cursor_handle Closed cursor_ready = Some (Inr None, Closed, cursor_ready)"
proof -
  have i: "agent_inv cursor_ready"
    using idle_cursor_ready by (simp add: idle_def)
  have h: "running cursor_ready" "length (queue cursor_ready) + 2 \<le> 2"
    "world_after cursor_ready = \<lparr> remaining = [0..<250], fetched = [] \<rparr>"
    using idle_cursor_ready
    by (simp_all add: idle_world_after idle_queue)
      (simp_all add: cursor_ready_def start_def Agent_init_def)
  have l: "length [0..<250] = 250" "(250 :: nat) < 251"
    by simp_all
  note t = batched_iteration [where m = 0 and r = 7 and rs = "[8]" and
      t = cursor_ready, OF i h l]
  from i h l t show ?thesis
    by (-) ((rule conjI, assumption)+, assumption)
qed

end
